theory Spec2Isabelle
  imports Main "HOL-Library.Word" "HOL-Library.Char_ord" "HOL-Library.List_Lexorder"
begin

section \<open>Reading definition files: lib/ebus/filereader.h\<close>

text \<open>
  The header declares two classes. \<open>FileReader\<close> splits the lines of a
  stream into fields; \<open>MappedFileReader\<close> turns each line into name/value pairs
  and knows about rows with default values. The header holds the bodies of the inline
  members only (\<open>formatHash\<close>, the constructor, \<open>extractDefaultsFromFilename\<close>,
  \<open>addDefaultFromFile\<close>, \<open>getDefaults\<close>, \<open>getSubDefaults\<close>); the
  other members are declared here and defined in a translation unit that is not part
  of the sources at hand.
\<close>

subsection \<open>Constants and types\<close>

text \<open>The separator between fields, and the character that quotes text with a separator in it.\<close>

abbreviation FIELD_SEPARATOR :: char where
  "FIELD_SEPARATOR \<equiv> CHR '',''"

abbreviation TEXT_SEPARATOR :: char where
  "TEXT_SEPARATOR \<equiv> CHR 0x22"

text \<open>
  \<open>result_t\<close> comes from lib/ebus/result.h, which is not at hand. The header names two
  of its codes, \<open>RESULT_OK\<close> and \<open>RESULT_ERR_INVALID_ARG\<close>; every other code
  of the enumeration is \<open>RESULT_ERR_OTHER\<close> with its number.
\<close>

datatype result_t = RESULT_OK | RESULT_ERR_INVALID_ARG | RESULT_ERR_OTHER int

text \<open>
  \<open>map<string, string>\<close>: an ordered map. It is an association list whose keys
  ascend strictly in the order of \<open>std::string\<close> (bytes compared as unsigned values,
  a proper prefix first), which is the order an iteration over the map follows.
\<close>

type_synonym mapped_row = "(string \<times> string) list"

text \<open>\<open>row[name] = value\<close> on such a map.\<close>

fun map_put :: "string \<Rightarrow> string \<Rightarrow> mapped_row \<Rightarrow> mapped_row" where
  "map_put k v [] = [(k, v)]"
| "map_put k v ((k', v') # m) =
     (if k = k' then (k, v) # m
      else if k < k' then (k, v) # (k', v') # m
      else (k', v') # map_put k v m)"

subsection \<open>The inline members of \<open>MappedFileReader\<close>\<close>

text \<open>
  The data members of the class, the mutex apart. The two stores of defaults are maps
  from the type of a row to the main default row and to the default sub rows.
\<close>

record MappedFileReader =
  m_supportsDefaults :: bool
  m_columnNames :: "string list"
  m_lastDefaults :: "(string \<times> mapped_row) list"
  m_lastSubDefaults :: "(string \<times> mapped_row list) list"

text \<open>
  The constructor sets \<open>m_supportsDefaults\<close>; the vector and the two maps start empty.
  The name of the class is the name of the record type, so the constructor is
  \<open>newMappedFileReader\<close>.
\<close>

definition newMappedFileReader :: "bool \<Rightarrow> MappedFileReader" where
  "newMappedFileReader supportsDefaults =
     \<lparr>m_supportsDefaults = supportsDefaults, m_columnNames = [],
      m_lastDefaults = [], m_lastSubDefaults = []\<rparr>"

text \<open>
  The members below are not \<open>const\<close>: each takes the object and returns it as it is
  after the call, last in the result.

  \<open>extractDefaultsFromFilename\<close> takes the map of defaults by reference and three
  optional pointers. The model returns the result together with the map and the three
  pointed-to variables as they are after the call; \<open>None\<close> is the \<open>NULL\<close> pointer.
  \<open>symbol_t\<close> is declared in lib/ebus/symbol.h, so the type of the destination
  address is a parameter.
\<close>

definition extractDefaultsFromFilename ::
  "MappedFileReader \<Rightarrow> string \<Rightarrow> mapped_row \<Rightarrow> 'sym option \<Rightarrow> 32 word option \<Rightarrow> 32 word option
    \<Rightarrow> bool \<times> mapped_row \<times> 'sym option \<times> 32 word option \<times> 32 word option \<times> MappedFileReader" where
  "extractDefaultsFromFilename this filename defaults destAddress software hardware =
     (False, defaults, destAddress, software, hardware, this)"

text \<open>
  \<open>addDefaultFromFile\<close> takes the error description by reference; the model returns
  the result code and the description after the call.
\<close>

definition addDefaultFromFile ::
  "MappedFileReader \<Rightarrow> mapped_row \<Rightarrow> mapped_row list \<Rightarrow> string \<Rightarrow> string \<Rightarrow> 32 word
    \<Rightarrow> result_t \<times> string \<times> MappedFileReader" where
  "addDefaultFromFile this row subRows errorDescription filename lineNo =
     (RESULT_ERR_INVALID_ARG, ''defaults not supported'', this)"

definition getDefaults :: "MappedFileReader \<Rightarrow> (string \<times> mapped_row) list" where
  "getDefaults this = m_lastDefaults this"

definition getSubDefaults :: "MappedFileReader \<Rightarrow> (string \<times> mapped_row list) list" where
  "getSubDefaults this = m_lastSubDefaults this"

subsection \<open>The members defined outside the header\<close>

text \<open>
  \<open>std::getline\<close> on the input stream, which is the string of the characters not
  read yet: it fails on a stream with no character left, and otherwise takes the
  characters up to the next line feed and drops that line feed.
\<close>

abbreviation NEWLINE :: char where
  "NEWLINE \<equiv> CHR 0x0A"

definition getline :: "string \<Rightarrow> (string \<times> string) option" where
  "getline ifs =
     (if ifs = [] then None
      else Some (takeWhile (\<lambda>c. c \<noteq> NEWLINE) ifs, drop 1 (dropWhile (\<lambda>c. c \<noteq> NEWLINE) ifs)))"

text \<open>
  Modelled from the spec: the body of \<open>FileReader::trim\<close>, declared in the header
  ("left and right trim the string") and defined elsewhere. The spec trims leading and
  trailing whitespace and does not list the characters; they are taken to be the six of
  \<open>isspace\<close> in the C locale.
\<close>

definition is_space :: "char \<Rightarrow> bool" where
  "is_space c =
     (c = CHR '' '' \<or> c = CHR 0x09 \<or> c = CHR 0x0A \<or> c = CHR 0x0B \<or> c = CHR 0x0C \<or> c = CHR 0x0D)"

definition trim :: "string \<Rightarrow> string" where
  "trim str = rev (dropWhile is_space (rev (dropWhile is_space str)))"

text \<open>
  Modelled from the spec: the body of \<open>FileReader::splitFields\<close>, of which the header
  has the declaration only. The spec's rules (section 4.1), in its order:
  a line whose first non-whitespace character is \<open>#\<close>, and a line of whitespace only,
  is counted and yields an empty record; fields are separated by the separator; a
  field may be quoted, inside the quotes the separator has no meaning and two quotes
  in a row stand for one; a quoted field that the line does not close pulls in the next
  lines until it is closed or the stream ends; each field is trimmed after unquoting;
  every line read advances the line number, adds its trimmed length to the size and is
  folded into the hash where these are tracked; the result is false only when the
  stream had no character to offer. The spec says that a pulled-in line is appended and
  does not say whether anything stands between it and the text gathered before it, so
  the characters put there are a parameter, \<open>lineJoin\<close>.

  The scanner keeps the fields finished so far, the field being read, whether it is
  inside quoted text, and whether the last character closed quoted text (a quote that
  follows at once is then the second of a doubled quote).
\<close>

definition isCommentOrEmpty :: "string \<Rightarrow> bool" where
  "isCommentOrEmpty line =
     (case dropWhile is_space line of [] \<Rightarrow> True | c # _ \<Rightarrow> c = CHR ''#'')"

type_synonym lexer = "string list \<times> string \<times> bool \<times> bool"

fun lexChar :: "lexer \<Rightarrow> char \<Rightarrow> lexer" where
  "lexChar (row, field, quotedText, closed) ch =
     (if ch = TEXT_SEPARATOR then
        (if quotedText then (row, field, False, True)
         else if closed then (row, field @ [ch], True, False)
         else (row, field, True, False))
      else if ch = FIELD_SEPARATOR \<and> \<not> quotedText then (row @ [trim field], [], False, False)
      else (row, field @ [ch], quotedText, False))"

definition lexLine :: "lexer \<Rightarrow> string \<Rightarrow> lexer" where
  "lexLine st line = foldl lexChar st line"

fun inQuotedText :: "lexer \<Rightarrow> bool" where
  "inQuotedText (row, field, quotedText, closed) = quotedText"

fun finishRow :: "lexer \<Rightarrow> string list" where
  "finishRow (row, field, quotedText, closed) = row @ [trim field]"

text \<open>
  The three counters \<open>splitFields\<close> updates through its reference and pointer
  parameters: \<open>unsigned int& lineNo\<close>, \<open>size_t* hash\<close> and \<open>size_t* size\<close>
  (\<open>None\<close> for \<open>NULL\<close>; \<open>size_t\<close> is taken to have 64 bits). The spec leaves the
  hash combinator open, so the function folding a line into the hash is a parameter.
\<close>

type_synonym counters = "32 word \<times> 64 word option \<times> 64 word option"

fun countLine :: "(string \<Rightarrow> 64 word \<Rightarrow> 64 word) \<Rightarrow> string \<Rightarrow> counters \<Rightarrow> counters" where
  "countLine hashLine line (lineNo, hash, sz) =
     (lineNo + 1, map_option (hashLine line) hash,
      map_option (\<lambda>s. s + of_nat (length (trim line))) sz)"

lemma getline_shorter:
  assumes "getline ifs = Some (line, rest)"
  shows "length rest < length ifs"
proof -
  from assms have ne: "ifs \<noteq> []" and r: "rest = drop 1 (dropWhile (\<lambda>c. c \<noteq> NEWLINE) ifs)"
    by (auto simp: getline_def split: if_splits)
  have "length (dropWhile (\<lambda>c. c \<noteq> NEWLINE) ifs) \<le> length ifs"
    by (rule length_dropWhile_le)
  with ne r show ?thesis
    by (cases ifs) auto
qed

text \<open>
  The lines pulled in while a quoted field is open: each is appended to the field after
  the characters of \<open>lineJoin\<close>.
\<close>

fun joinField :: "lexer \<Rightarrow> string \<Rightarrow> lexer" where
  "joinField (row, field, quotedText, closed) lineJoin = (row, field @ lineJoin, quotedText, closed)"

function pullLines ::
  "(string \<Rightarrow> 64 word \<Rightarrow> 64 word) \<Rightarrow> string \<Rightarrow> lexer \<Rightarrow> string \<Rightarrow> counters
    \<Rightarrow> lexer \<times> string \<times> counters" where
  "pullLines hashLine lineJoin st ifs c =
     (case getline ifs of
        None \<Rightarrow> (st, ifs, c)
      | Some (line, rest) \<Rightarrow>
          (if inQuotedText (lexLine (joinField st lineJoin) line)
           then pullLines hashLine lineJoin (lexLine (joinField st lineJoin) line) rest
                  (countLine hashLine line c)
           else (lexLine (joinField st lineJoin) line, rest, countLine hashLine line c)))"
  by pat_completeness auto
termination
proof (relation "measure (\<lambda>(hashLine, lineJoin, st, ifs, c). length ifs)", goal_cases)
  case 1
  show ?case by simp
next
  case (2 hashLine lineJoin st ifs c x2 line rest)
  then have "getline ifs = Some (line, rest)" by simp
  from getline_shorter [OF this] show ?case by simp
qed

text \<open>
  The result is the return value, the row, the stream after the call and the counters
  after the call.
\<close>

definition splitFields ::
  "(string \<Rightarrow> 64 word \<Rightarrow> 64 word) \<Rightarrow> string \<Rightarrow> string \<Rightarrow> 32 word \<Rightarrow> 64 word option
    \<Rightarrow> 64 word option \<Rightarrow> bool \<times> string list \<times> string \<times> counters" where
  "splitFields hashLine lineJoin ifs lineNo hash sz =
     (case getline ifs of
        None \<Rightarrow> (False, [], ifs, lineNo, hash, sz)
      | Some (line, rest) \<Rightarrow>
          (if isCommentOrEmpty line then (True, [], rest, countLine hashLine line (lineNo, hash, sz))
           else if inQuotedText (lexLine ([], [], False, False) line)
           then (case pullLines hashLine lineJoin (lexLine ([], [], False, False) line) rest
                        (countLine hashLine line (lineNo, hash, sz)) of
                   (st, rest', c) \<Rightarrow> (True, finishRow st, rest', c))
           else (True, finishRow (lexLine ([], [], False, False) line), rest,
                 countLine hashLine line (lineNo, hash, sz))))"

text \<open>
  Modelled from the spec: the body of \<open>MappedFileReader::combineRow\<close>, of which the
  header has the declaration only. The spec (section 4.3): the values of the row joined by
  the separator, a value that contains the separator or a quote put in quotes with the
  quotes inside it doubled. The member is static and is given the map alone, so the
  order of the values is the one the map is iterated in.
\<close>

definition quoteValue :: "string \<Rightarrow> string" where
  "quoteValue v =
     (if FIELD_SEPARATOR \<in> set v \<or> TEXT_SEPARATOR \<in> set v
      then TEXT_SEPARATOR # concat (map (\<lambda>c. if c = TEXT_SEPARATOR then [c, c] else [c]) v)
             @ [TEXT_SEPARATOR]
      else v)"

fun joinFields :: "string list \<Rightarrow> string" where
  "joinFields [] = []"
| "joinFields [v] = v"
| "joinFields (v # w # vs) = v @ FIELD_SEPARATOR # joinFields (w # vs)"

definition combineRow :: "mapped_row \<Rightarrow> string" where
  "combineRow row = joinFields (map (\<lambda>(name, v). quoteValue v) row)"

text \<open>
  Modelled from the spec: the column mapping applied to the fields of a row, which the
  header leaves to the first \<open>addFromFile\<close>, declared only. The field at a position goes
  under the column name at that position; a row with fewer fields than names leaves the
  trailing names absent. Fields beyond the names belong to the sub rows and are no part
  of the main row.
\<close>

definition mapFields :: "string list \<Rightarrow> string list \<Rightarrow> mapped_row" where
  "mapFields columnNames row =
     foldl (\<lambda>m (name, v). map_put name v m) [] (zip columnNames row)"

subsection \<open>Two notions for the proofs about the scanner\<close>

text \<open>
  The scanner never is inside quoted text right after the character that closed it, and a
  text can be such that the scanner is inside quoted text at each of its line feeds.
\<close>

fun consistent :: "lexer \<Rightarrow> bool" where
  "consistent (row, field, quotedText, closed) = (\<not> (quotedText \<and> closed))"

fun quotedAtNewlines :: "lexer \<Rightarrow> string \<Rightarrow> bool" where
  "quotedAtNewlines st [] = True"
| "quotedAtNewlines st (ch # s) =
     (if ch = NEWLINE then inQuotedText st \<and> quotedAtNewlines (lexChar st ch) s
      else quotedAtNewlines (lexChar st ch) s)"

section \<open>Properties of the inline members\<close>

text \<open>
  C10. The base implementation of \<open>extractDefaultsFromFilename\<close> returns false for
  every file name, and the map of defaults, the variables behind the three optional
  pointers and the reader itself (its stores of defaults among the rest) are after the
  call what they were before it. The same holds after any number of calls, one per file
  name of a list: the map of defaults handed through all of them comes back as it went
  in, so a reader that keeps the base implementation adds nothing derived from a file
  name to the defaults.
\<close>

theorem extractDefaultsFromFilename_base:
  "fst (extractDefaultsFromFilename this filename defaults destAddress software hardware) = False
   \<and> snd (extractDefaultsFromFilename this filename defaults destAddress software hardware)
       = (defaults, destAddress, software, hardware, this)
   \<and> foldl (\<lambda>d f. fst (snd (extractDefaultsFromFilename this f d destAddress software hardware)))
        defaults filenames = defaults"
proof -
  have "foldl (\<lambda>d f. fst (snd (extractDefaultsFromFilename this f d destAddress software hardware)))
          d filenames = d" for d
    by (induction filenames arbitrary: d) (simp_all add: extractDefaultsFromFilename_def)
  then show ?thesis
    by (simp add: extractDefaultsFromFilename_def)
qed

text \<open>
  The base implementation of \<open>addDefaultFromFile\<close> reads neither its arguments nor
  \<open>m_supportsDefaults\<close>: for every reader and every row its result code is
  \<open>RESULT_ERR_INVALID_ARG\<close>, the error description becomes "defaults not supported",
  and the reader is left as it was.
\<close>

lemma addDefaultFromFile_fails:
  "addDefaultFromFile this row subRows errorDescription filename lineNo
     = (RESULT_ERR_INVALID_ARG, ''defaults not supported'', this)"
  by (simp add: addDefaultFromFile_def)

section \<open>Combining a row and splitting it again\<close>

subsection \<open>The scanner on the output of \<open>combineRow\<close>\<close>

lemma lexLine_append: "lexLine st (a @ b) = lexLine (lexLine st a) b"
  by (simp add: lexLine_def)

lemma lexLine_Nil: "lexLine st [] = st"
  by (simp add: lexLine_def)

lemma lexLine_Cons: "lexLine st (c # cs) = lexLine (lexChar st c) cs"
  by (simp add: lexLine_def)

lemma lex_doubled:
  "lexLine (row, field, True, False)
     (concat (map (\<lambda>c. if c = TEXT_SEPARATOR then [c, c] else [c]) v))
   = (row, field @ v, True, False)"
  by (induction v arbitrary: field) (simp_all add: lexLine_Nil lexLine_Cons)

lemma lex_plain:
  "FIELD_SEPARATOR \<notin> set v \<Longrightarrow> TEXT_SEPARATOR \<notin> set v \<Longrightarrow>
   lexLine (row, field, False, closed) v = (row, field @ v, False, closed \<and> v = [])"
  by (induction v arbitrary: field closed) (auto simp: lexLine_Nil lexLine_Cons)

lemma lex_quoteValue:
  "\<exists>closed. lexLine (row, [], False, False) (quoteValue v) = (row, v, False, closed)"
proof (cases "FIELD_SEPARATOR \<in> set v \<or> TEXT_SEPARATOR \<in> set v")
  case True
  then have "lexLine (row, [], False, False) (quoteValue v) = (row, v, False, True)"
    by (simp add: quoteValue_def lexLine_Cons lexLine_append lex_doubled lexLine_Nil)
  then show ?thesis ..
next
  case False
  then have "lexLine (row, [], False, False) (quoteValue v) = (row, v, False, False)"
    using lex_plain [of v row "[]" False] by (simp add: quoteValue_def)
  then show ?thesis ..
qed

lemma lex_joinFields:
  "vs \<noteq> [] \<Longrightarrow>
   \<exists>closed. lexLine (row, [], False, False) (joinFields (map quoteValue vs))
     = (row @ map trim (butlast vs), last vs, False, closed)"
proof (induction vs arbitrary: row rule: joinFields.induct)
  case 1
  then show ?case by simp
next
  case (2 v)
  then show ?case using lex_quoteValue [of row v] by simp
next
  case (3 v w vs)
  obtain closed where q: "lexLine (row, [], False, False) (quoteValue v) = (row, v, False, closed)"
    using lex_quoteValue [of row v] ..
  obtain closed' where r: "lexLine (row @ [trim v], [], False, False) (joinFields (map quoteValue (w # vs)))
      = ((row @ [trim v]) @ map trim (butlast (w # vs)), last (w # vs), False, closed')"
    using "3.IH" [of "row @ [trim v]"] by auto
  have "lexLine (row, [], False, False) (joinFields (map quoteValue (v # w # vs)))
      = (row @ map trim (butlast (v # w # vs)), last (v # w # vs), False, closed')"
    using q r by (simp add: lexLine_append lexLine_Cons)
  then show ?case ..
qed

lemma trim_fixed_hd: 
  assumes "trim v = v" and "v \<noteq> []"
  shows "\<not> is_space (hd v)"
proof
  assume sp: "is_space (hd v)"
  from assms(2) obtain c w where v: "v = c # w" by (cases v) auto
  have "length (trim v) \<le> length (dropWhile is_space v)"
    unfolding trim_def using length_dropWhile_le [of is_space "rev (dropWhile is_space v)"] by simp
  also have "\<dots> \<le> length w"
    using sp v by (simp add: length_dropWhile_le)
  finally show False using assms(1) v by simp
qed

lemma map_put_last:
  "sorted_wrt (<) (map fst m @ [k]) \<Longrightarrow> map_put k v m = m @ [(k, v)]"
  by (induction m) (auto simp: sorted_wrt_append)

lemma foldl_map_put:
  "sorted_wrt (<) (map fst (m @ kvs)) \<Longrightarrow>
   foldl (\<lambda>m (name, v). map_put name v m) m kvs = m @ kvs"
proof (induction kvs arbitrary: m)
  case Nil
  then show ?case by simp
next
  case (Cons kv kvs)
  obtain k v where kv: "kv = (k, v)" by (cases kv)
  from Cons.prems have "sorted_wrt (<) (map fst m @ [k])"
    by (simp add: kv sorted_wrt_append)
  then have "map_put k v m = m @ [(k, v)]" by (rule map_put_last)
  moreover have "sorted_wrt (<) (map fst ((m @ [(k, v)]) @ kvs))"
    using Cons.prems by (simp add: kv)
  ultimately show ?case
    using Cons.IH [of "m @ [(k, v)]"] by (simp add: kv)
qed

lemma zip_take_names: "zip names vs = zip (take (length vs) names) vs"
  by (induction names vs rule: list_induct2') simp_all

lemma mapFields_row:
  assumes "sorted_wrt (<) (map fst row)"
    and "take (length row) columnNames = map fst row"
  shows "mapFields columnNames (map snd row) = row"
proof -
  have "zip columnNames (map snd row) = zip (map fst row) (map snd row)"
    using zip_take_names [of columnNames "map snd row"] assms(2) by simp
  also have "\<dots> = row" by (simp add: zip_map_fst_snd)
  finally show ?thesis
    using foldl_map_put [of "[]" row] assms(1) by (simp add: mapFields_def)
qed

lemma newline_quoteValue: "NEWLINE \<notin> set v \<Longrightarrow> NEWLINE \<notin> set (quoteValue v)"
  by (auto simp: quoteValue_def split: if_splits)

lemma newline_joinFields:
  "list_all (\<lambda>v. NEWLINE \<notin> set v) vs \<Longrightarrow> NEWLINE \<notin> set (joinFields vs)"
  by (induction vs rule: joinFields.induct) auto

lemma getline_one_line:
  assumes "line \<noteq> []" and "NEWLINE \<notin> set line"
  shows "getline line = Some (line, [])"
proof -
  from assms(2) have "\<forall>c\<in>set line. c \<noteq> NEWLINE" by auto
  then have tw: "takeWhile (\<lambda>c. c \<noteq> NEWLINE) line = line"
    and dw: "dropWhile (\<lambda>c. c \<noteq> NEWLINE) line = []"
    by simp_all
  show ?thesis
    unfolding getline_def tw dw using assms(1) by simp
qed

lemma hd_quoteValue:
  "trim v = v \<Longrightarrow> v \<noteq> [] \<Longrightarrow> quoteValue v \<noteq> [] \<and> \<not> is_space (hd (quoteValue v))"
  using trim_fixed_hd [of v] by (auto simp: quoteValue_def is_space_def)

lemma hd_joinFields:
  assumes "list_all (\<lambda>v. trim v = v) vs" and "vs \<noteq> []" and "vs \<noteq> [[]]"
  shows "joinFields (map quoteValue vs) \<noteq> [] \<and> \<not> is_space (hd (joinFields (map quoteValue vs)))"
proof (cases vs)
  case Nil
  with assms(2) show ?thesis by simp
next
  case (Cons v ws)
  show ?thesis
  proof (cases "v = []")
    case True
    with assms(3) Cons obtain w ws' where "ws = w # ws'" by (cases ws) auto
    with Cons True show ?thesis by (simp add: quoteValue_def is_space_def)
  next
    case False
    with assms(1) Cons have "quoteValue v \<noteq> [] \<and> \<not> is_space (hd (quoteValue v))"
      by (simp add: hd_quoteValue)
    with Cons show ?thesis by (cases ws) auto
  qed
qed

lemma not_comment:
  "line \<noteq> [] \<Longrightarrow> \<not> is_space (hd line) \<Longrightarrow> take 1 line \<noteq> ''#'' \<Longrightarrow> \<not> isCommentOrEmpty line"
  by (cases line) (auto simp: isCommentOrEmpty_def)

lemma map_trim_fixed: "list_all (\<lambda>v. trim v = v) vs \<Longrightarrow> map trim vs = vs"
  by (induction vs) auto

lemma consistent_lexChar: "consistent (lexChar st ch)"
  by (cases st) simp

lemma consistent_lexLine: "consistent st \<Longrightarrow> consistent (lexLine st line)"
  by (induction line arbitrary: st) (simp_all add: lexLine_Nil lexLine_Cons consistent_lexChar)

lemma joinField_newline:
  "inQuotedText st \<Longrightarrow> consistent st \<Longrightarrow> joinField st [NEWLINE] = lexChar st NEWLINE"
  by (cases st) simp

lemma inQuotedText_newline: "inQuotedText st \<Longrightarrow> inQuotedText (lexChar st NEWLINE)"
  by (cases st) simp

lemma qan_append:
  "quotedAtNewlines st (a @ b) = (quotedAtNewlines st a \<and> quotedAtNewlines (lexLine st a) b)"
  by (induction a arbitrary: st) (simp_all add: lexLine_Nil lexLine_Cons)

lemma qan_no_newline: "NEWLINE \<notin> set a \<Longrightarrow> quotedAtNewlines st a"
  by (induction a arbitrary: st) auto

lemma qan_doubled:
  "quotedAtNewlines (row, field, True, False)
     (concat (map (\<lambda>c. if c = TEXT_SEPARATOR then [c, c] else [c]) v))"
  by (induction v arbitrary: field) simp_all

lemma qan_quoteValue:
  assumes "NEWLINE \<notin> set v \<or> FIELD_SEPARATOR \<in> set v \<or> TEXT_SEPARATOR \<in> set v"
  shows "quotedAtNewlines (row, [], False, False) (quoteValue v)"
proof (cases "FIELD_SEPARATOR \<in> set v \<or> TEXT_SEPARATOR \<in> set v")
  case True
  then show ?thesis
    by (simp add: quoteValue_def qan_append qan_doubled lex_doubled)
next
  case False
  with assms have "NEWLINE \<notin> set v" by simp
  with False show ?thesis
    by (simp add: quoteValue_def qan_no_newline)
qed

lemma qan_joinFields:
  "list_all (\<lambda>v. NEWLINE \<notin> set v \<or> FIELD_SEPARATOR \<in> set v \<or> TEXT_SEPARATOR \<in> set v) vs \<Longrightarrow>
   quotedAtNewlines (row, [], False, False) (joinFields (map quoteValue vs))"
proof (induction vs arbitrary: row rule: joinFields.induct)
  case 1
  then show ?case by simp
next
  case (2 v)
  then show ?case by (simp add: qan_quoteValue)
next
  case (3 v w vs)
  obtain closed where q: "lexLine (row, [], False, False) (quoteValue v) = (row, v, False, closed)"
    using lex_quoteValue [of row v] ..
  have "quotedAtNewlines (row, [], False, False) (quoteValue v)"
    using "3.prems" by (simp add: qan_quoteValue)
  moreover have "quotedAtNewlines (row @ [trim v], [], False, False) (joinFields (map quoteValue (w # vs)))"
    using "3.prems" by (intro "3.IH") simp
  ultimately show ?case
    by (simp add: qan_append q)
qed

lemma getline_split:
  assumes "NEWLINE \<in> set t"
  shows "\<exists>l r. t = l @ NEWLINE # r \<and> NEWLINE \<notin> set l \<and> getline t = Some (l, r)"
proof -
  let ?l = "takeWhile (\<lambda>c. c \<noteq> NEWLINE) t" and ?d = "dropWhile (\<lambda>c. c \<noteq> NEWLINE) t"
  from assms have "?d \<noteq> []" by (simp add: dropWhile_eq_Nil_conv)
  then obtain r where d: "?d = NEWLINE # r"
    using hd_dropWhile [of "\<lambda>c. c \<noteq> NEWLINE" t] by (cases ?d) auto
  have t: "t = ?l @ NEWLINE # r"
    using takeWhile_dropWhile_id [of "\<lambda>c. c \<noteq> NEWLINE" t] d by simp
  have nl: "NEWLINE \<notin> set ?l"
    using set_takeWhileD [of NEWLINE "\<lambda>c. c \<noteq> NEWLINE" t] by auto
  from assms have "t \<noteq> []" by auto
  then have "getline t = Some (?l, r)"
    by (simp add: getline_def d)
  with t nl show ?thesis by blast
qed

lemma pullLines_whole:
  assumes "inQuotedText st" and "consistent st"
    and "quotedAtNewlines (lexChar st NEWLINE) t"
    and "\<not> inQuotedText (lexLine (lexChar st NEWLINE) t)"
  shows "fst (pullLines hashLine [NEWLINE] st t c) = lexLine (lexChar st NEWLINE) t
    \<and> fst (snd (pullLines hashLine [NEWLINE] st t c)) = []"
  using assms
proof (induction t arbitrary: st c rule: length_induct)
  case (1 t)
  note j = joinField_newline [OF "1.prems"(1,2)]
  show ?case
  proof (cases "NEWLINE \<in> set t")
    case False
    have "t \<noteq> []"
      using "1.prems"(1,4) inQuotedText_newline [of st] by (auto simp: lexLine_Nil)
    then have g: "getline t = Some (t, [])"
      using False by (rule getline_one_line)
    show ?thesis
      using "1.prems"(4) by (subst (1 2) pullLines.simps) (simp add: g j)
  next
    case True
    then obtain l r where t: "t = l @ NEWLINE # r" and g: "getline t = Some (l, r)"
      using getline_split by blast
    let ?st = "lexLine (lexChar st NEWLINE) l"
    have q: "inQuotedText ?st" and qr: "quotedAtNewlines (lexChar ?st NEWLINE) r"
      using "1.prems"(3) by (simp_all add: t qan_append)
    have c: "consistent ?st"
      by (simp add: consistent_lexLine consistent_lexChar)
    have w: "lexLine (lexChar ?st NEWLINE) r = lexLine (lexChar st NEWLINE) t"
      by (simp add: t lexLine_append lexLine_Cons)
    have "length r < length t" by (simp add: t)
    with "1.IH" have ih: "inQuotedText ?st \<Longrightarrow> consistent ?st \<Longrightarrow>
        quotedAtNewlines (lexChar ?st NEWLINE) r \<Longrightarrow>
        \<not> inQuotedText (lexLine (lexChar ?st NEWLINE) r) \<Longrightarrow>
        fst (pullLines hashLine [NEWLINE] ?st r c') = lexLine (lexChar ?st NEWLINE) r
        \<and> fst (snd (pullLines hashLine [NEWLINE] ?st r c')) = []" for c'
      by blast
    have "fst (pullLines hashLine [NEWLINE] ?st r (countLine hashLine l c)) = lexLine (lexChar st NEWLINE) t
        \<and> fst (snd (pullLines hashLine [NEWLINE] ?st r (countLine hashLine l c))) = []"
      using ih [OF q c qr] "1.prems"(4) w by simp
    then show ?thesis
      using q by (subst (1 2) pullLines.simps) (simp add: g j)
  qed
qed

lemma newline_in_joined:
  assumes "NEWLINE \<in> set (joinFields (map quoteValue vs))"
  shows "\<not> list_all (\<lambda>v. NEWLINE \<notin> set v) vs"
proof
  assume "list_all (\<lambda>v. NEWLINE \<notin> set v) vs"
  then have "list_all (\<lambda>v. NEWLINE \<notin> set v) (map quoteValue vs)"
    by (induction vs) (simp_all add: newline_quoteValue)
  then have "NEWLINE \<notin> set (joinFields (map quoteValue vs))"
    by (rule newline_joinFields)
  with assms show False by simp
qed

lemma splitFields_joinFields:
  assumes tr: "list_all (\<lambda>v. trim v = v) vs"
    and nl: "list_all (\<lambda>v. NEWLINE \<notin> set v
               \<or> lineJoin = [NEWLINE] \<and> (FIELD_SEPARATOR \<in> set v \<or> TEXT_SEPARATOR \<in> set v)) vs"
    and ne: "vs \<noteq> []" and nb: "vs \<noteq> [[]]"
    and nc: "take 1 (joinFields (map quoteValue vs)) \<noteq> ''#''"
  shows "fst (splitFields hashLine lineJoin (joinFields (map quoteValue vs)) lineNo hash sz) = True
    \<and> fst (snd (splitFields hashLine lineJoin (joinFields (map quoteValue vs)) lineNo hash sz)) = vs
    \<and> fst (snd (snd (splitFields hashLine lineJoin (joinFields (map quoteValue vs)) lineNo hash sz))) = []"
proof -
  let ?s = "joinFields (map quoteValue vs)"
  let ?init = "([], [], False, False) :: lexer"
  have hd: "?s \<noteq> []" "\<not> is_space (hd ?s)"
    using hd_joinFields [OF tr ne nb] by simp_all
  obtain closed where l: "lexLine ?init ?s = ([] @ map trim (butlast vs), last vs, False, closed)"
    using lex_joinFields [OF ne, of "[]"] ..
  have "map trim (butlast vs) @ [trim (last vs)] = map trim (butlast vs @ [last vs])"
    by simp
  also have "\<dots> = vs" using ne tr by (simp add: map_trim_fixed)
  finally have f: "finishRow (lexLine ?init ?s) = vs"
    by (simp add: l)
  have nq: "\<not> inQuotedText (lexLine ?init ?s)"
    by (simp add: l)
  show ?thesis
  proof (cases "NEWLINE \<in> set ?s")
    case False
    with hd(1) have g: "getline ?s = Some (?s, [])" by (rule getline_one_line)
    have c: "\<not> isCommentOrEmpty ?s" using hd nc by (rule not_comment)
    show ?thesis
      using g c f nq by (simp add: splitFields_def)
  next
    case True
    then have "\<not> list_all (\<lambda>v. NEWLINE \<notin> set v) vs" by (rule newline_in_joined)
    with nl have j: "lineJoin = [NEWLINE]"
      by (auto simp: list_all_iff)
    from nl have "list_all (\<lambda>v. NEWLINE \<notin> set v \<or> FIELD_SEPARATOR \<in> set v \<or> TEXT_SEPARATOR \<in> set v) vs"
      by (auto simp: list_all_iff)
    then have qan: "quotedAtNewlines ?init ?s" by (rule qan_joinFields)
    from True obtain line r where s: "?s = line @ NEWLINE # r" and g: "getline ?s = Some (line, r)"
      using getline_split by blast
    have "hd ?s \<noteq> NEWLINE" using hd(2) by (auto simp: is_space_def)
    then have ln: "line \<noteq> []" using s by (cases line) auto
    then have "hd line = hd ?s" and "take 1 line = take 1 ?s"
      using s by (cases line; simp)+
    with hd(2) nc ln have c: "\<not> isCommentOrEmpty line"
      by (intro not_comment) simp_all
    let ?st = "lexLine ?init line"
    have q: "inQuotedText ?st" and qr: "quotedAtNewlines (lexChar ?st NEWLINE) r"
      using qan by (simp_all add: s qan_append)
    have co: "consistent ?st" by (simp add: consistent_lexLine)
    have w: "lexLine (lexChar ?st NEWLINE) r = lexLine ?init ?s"
      by (simp add: s lexLine_append lexLine_Cons)
    have p: "fst (pullLines hashLine [NEWLINE] ?st r (countLine hashLine line (lineNo, hash, sz)))
          = lexLine ?init ?s
        \<and> fst (snd (pullLines hashLine [NEWLINE] ?st r (countLine hashLine line (lineNo, hash, sz)))) = []"
      using pullLines_whole [OF q co qr] nq w by simp
    show ?thesis
      using g c q p f by (simp add: splitFields_def j split_beta)
  qed
qed

subsection \<open>The round trip\<close>

text \<open>
  C1, as the claim states it, fails: \<open>splitFields\<close> trims every field after
  unquoting, so a value that begins or ends with whitespace does not come back, quoted
  or not. The row here has one column, \<open>name\<close>, whose value is a blank followed by
  \<open>a,b\<close>; \<open>combineRow\<close> quotes it, and the field read back is \<open>a,b\<close>.
\<close>

theorem combineRow_roundtrip_counterexample:
  "\<not> (case splitFields (\<lambda>line h. h) [] (combineRow [(''name'', '' a,b'')]) 0 None None of
        (again, got, rest, c) \<Rightarrow> mapFields [''name''] got = [(''name'', '' a,b'')])"
  by (simp add: combineRow_def quoteValue_def splitFields_def getline_def isCommentOrEmpty_def
        is_space_def lexLine_def trim_def mapFields_def)

text \<open>
  The other conditions of the amended claim, each with a row that does not come back
  without it.

  The order of the columns. \<open>combineRow\<close> is given the map alone and joins the values
  in the order of the names, while the fields read back are mapped in the order of the
  columns. With the columns \<open>type, f1, f2, f3\<close> the row of the fields
  \<open>T, a, b, c\<close> is combined to \<open>a,b,c,T\<close>, and reading that back puts \<open>a\<close>
  under \<open>type\<close>.
\<close>

lemma combineRow_column_order:
  "mapFields [''type'', ''f1'', ''f2'', ''f3''] [''T'', ''a'', ''b'', ''c'']
     = [(''f1'', ''a''), (''f2'', ''b''), (''f3'', ''c''), (''type'', ''T'')]
   \<and> combineRow [(''f1'', ''a''), (''f2'', ''b''), (''f3'', ''c''), (''type'', ''T'')] = ''a,b,c,T''
   \<and> (case splitFields hashLine lineJoin
              (combineRow [(''f1'', ''a''), (''f2'', ''b''), (''f3'', ''c''), (''type'', ''T'')])
              0 None None of
         (again, got, rest, c) \<Rightarrow> mapFields [''type'', ''f1'', ''f2'', ''f3''] got)
       = [(''f1'', ''b''), (''f2'', ''c''), (''f3'', ''T''), (''type'', ''a'')]"
  by (simp add: combineRow_def quoteValue_def splitFields_def getline_def isCommentOrEmpty_def
        is_space_def lexLine_def trim_def mapFields_def)

text \<open>
  A row whose only value is empty combines to the empty string, which has no line to
  read; a first value that begins with \<open>#\<close> makes the line a comment.
\<close>

lemma combineRow_single_empty_value:
  "splitFields hashLine lineJoin (combineRow [(''name'', [])]) 0 None None
     = (False, [], [], 0, None, None)"
  by (simp add: combineRow_def quoteValue_def splitFields_def getline_def)

lemma combineRow_comment_value:
  "splitFields hashLine lineJoin (combineRow [(''name'', ''#1'')]) 0 None None
     = (True, [], [], 1, None, None)"
  by (simp add: combineRow_def quoteValue_def splitFields_def getline_def isCommentOrEmpty_def
        is_space_def)

text \<open>
  A line feed inside a value. In a value that is not quoted it ends the line, whatever
  \<open>lineJoin\<close> is: of \<open>a\<close>, line feed, \<open>b\<close> the field read is \<open>a\<close>, and
  \<open>b\<close> stays in the stream. In a quoted value the next line is pulled in, and the
  field read has \<open>lineJoin\<close> where the value had the line feed: of \<open>a,\<close>, line
  feed, \<open>b\<close> it is \<open>a,\<close>, \<open>lineJoin\<close>, \<open>b\<close>, which is the value again only
  when \<open>lineJoin\<close> is exactly a line feed.
\<close>

lemma combineRow_line_feed_value:
  "splitFields hashLine lineJoin (combineRow [(''name'', [CHR ''a'', NEWLINE, CHR ''b''])]) 0 None None
     = (True, [''a''], ''b'', 1, None, None)"
  by (simp add: combineRow_def quoteValue_def splitFields_def getline_def isCommentOrEmpty_def
        is_space_def lexLine_def trim_def)

lemma combineRow_quoted_line_feed_value:
  "splitFields hashLine lineJoin (combineRow [(''name'', ''a,'' @ [NEWLINE] @ ''b'')]) 0 None None
     = (True, [''a,'' @ lineJoin @ ''b''], [], 2, None, None)"
proof -
  have t: "trim (CHR ''a'' # FIELD_SEPARATOR # lineJoin @ ''b'') = CHR ''a'' # FIELD_SEPARATOR # lineJoin @ ''b''"
    by (simp add: trim_def is_space_def)
  show ?thesis
    by (simp add: combineRow_def quoteValue_def splitFields_def getline_def isCommentOrEmpty_def
          is_space_def lexLine_def pullLines.simps t)
qed

text \<open>
  C1, amended. Let the row be a map (its names ascend strictly) and let the column
  mapping begin with the names of the row in the order of the map, so that the order of
  the columns is the order \<open>combineRow\<close> joins the values in. If no value of the row
  begins or ends with whitespace, a line feed stands only in values that
  \<open>combineRow\<close> quotes (those with a separator or a quote in them) and only when
  \<open>splitFields\<close> puts a line feed between the lines it pulls in, the row is not a
  single empty value, and the combined string does not begin with \<open>#\<close>, then
  \<open>splitFields\<close> on the string \<open>combineRow\<close> makes of the row reads the whole
  string, returns the values of the row as its fields (with the separator and the quote
  inside values intact), and the column mapping applied to these fields is the row
  again. This holds for every way of folding a line into the hash and, for a row with no
  line feed in it, for every way of joining pulled-in lines. The call reports a line
  read exactly when the row has a column.
\<close>

theorem combineRow_roundtrip:
  assumes keys: "sorted_wrt (<) (map fst row)"
    and cols: "take (length row) columnNames = map fst row"
    and vals: "list_all (\<lambda>v. trim v = v
                 \<and> (NEWLINE \<notin> set v
                     \<or> lineJoin = [NEWLINE] \<and> (FIELD_SEPARATOR \<in> set v \<or> TEXT_SEPARATOR \<in> set v)))
               (map snd row)"
    and nb: "map snd row \<noteq> [[]]"
    and nc: "take 1 (combineRow row) \<noteq> ''#''"
  shows "case splitFields hashLine lineJoin (combineRow row) lineNo hash sz of
           (again, got, rest, c) \<Rightarrow>
             again = (row \<noteq> []) \<and> got = map snd row \<and> rest = []
             \<and> mapFields columnNames got = row"
proof (cases "row = []")
  case True
  then show ?thesis
    by (simp add: combineRow_def splitFields_def getline_def mapFields_def)
next
  case False
  have c: "combineRow row = joinFields (map quoteValue (map snd row))"
    by (simp add: combineRow_def case_prod_unfold comp_def)
  have tr: "list_all (\<lambda>v. trim v = v) (map snd row)"
    and nl: "list_all (\<lambda>v. NEWLINE \<notin> set v
               \<or> lineJoin = [NEWLINE] \<and> (FIELD_SEPARATOR \<in> set v \<or> TEXT_SEPARATOR \<in> set v))
             (map snd row)"
    using vals by (simp_all add: list_all_iff)
  have ne: "map snd row \<noteq> []" using False by simp
  obtain again got rest cs
    where r: "splitFields hashLine lineJoin (combineRow row) lineNo hash sz = (again, got, rest, cs)"
    by (cases "splitFields hashLine lineJoin (combineRow row) lineNo hash sz") auto
  have "fst (splitFields hashLine lineJoin (combineRow row) lineNo hash sz) = True
      \<and> fst (snd (splitFields hashLine lineJoin (combineRow row) lineNo hash sz)) = map snd row
      \<and> fst (snd (snd (splitFields hashLine lineJoin (combineRow row) lineNo hash sz))) = []"
    unfolding c using tr nl ne nb nc [unfolded c] by (rule splitFields_joinFields)
  then have "again = True \<and> got = map snd row \<and> rest = []"
    by (simp add: r)
  then show ?thesis
    using False mapFields_row [OF keys cols] by (simp add: r)
qed

text \<open>
  The amended C1 at a row of two of the three columns \<open>circuit, name, type\<close>: the
  value of \<open>circuit\<close> contains the separator and a line feed, the value of \<open>name\<close>
  is \<open>hi\<close> in quotes, and pulled-in lines are joined by a line feed. The five
  conditions hold for it, and the row comes back from the two lines it is combined to.
\<close>

theorem combineRow_roundtrip_witness:
  "sorted_wrt (<) (map fst [(''circuit'', ''a,'' @ [NEWLINE] @ ''b''), (''name'', TEXT_SEPARATOR # ''hi'' @ [TEXT_SEPARATOR])])
   \<and> take (length [(''circuit'', ''a,'' @ [NEWLINE] @ ''b''), (''name'', TEXT_SEPARATOR # ''hi'' @ [TEXT_SEPARATOR])])
        [''circuit'', ''name'', ''type'']
       = map fst [(''circuit'', ''a,'' @ [NEWLINE] @ ''b''), (''name'', TEXT_SEPARATOR # ''hi'' @ [TEXT_SEPARATOR])]
   \<and> list_all (\<lambda>v. trim v = v
         \<and> (NEWLINE \<notin> set v
             \<or> [NEWLINE] = [NEWLINE] \<and> (FIELD_SEPARATOR \<in> set v \<or> TEXT_SEPARATOR \<in> set v)))
       (map snd [(''circuit'', ''a,'' @ [NEWLINE] @ ''b''), (''name'', TEXT_SEPARATOR # ''hi'' @ [TEXT_SEPARATOR])])
   \<and> map snd [(''circuit'', ''a,'' @ [NEWLINE] @ ''b''), (''name'', TEXT_SEPARATOR # ''hi'' @ [TEXT_SEPARATOR])] \<noteq> [[]]
   \<and> take 1 (combineRow [(''circuit'', ''a,'' @ [NEWLINE] @ ''b''), (''name'', TEXT_SEPARATOR # ''hi'' @ [TEXT_SEPARATOR])])
       \<noteq> ''#''
   \<and> (case splitFields (\<lambda>line h. h + of_nat (length line)) [NEWLINE]
              (combineRow [(''circuit'', ''a,'' @ [NEWLINE] @ ''b''), (''name'', TEXT_SEPARATOR # ''hi'' @ [TEXT_SEPARATOR])])
              0 (Some 0) (Some 0) of
         (again, got, rest, c) \<Rightarrow>
           again = ([(''circuit'', ''a,'' @ [NEWLINE] @ ''b''), (''name'', TEXT_SEPARATOR # ''hi'' @ [TEXT_SEPARATOR])] \<noteq> [])
           \<and> got = map snd [(''circuit'', ''a,'' @ [NEWLINE] @ ''b''), (''name'', TEXT_SEPARATOR # ''hi'' @ [TEXT_SEPARATOR])]
           \<and> rest = []
           \<and> mapFields [''circuit'', ''name'', ''type''] got
               = [(''circuit'', ''a,'' @ [NEWLINE] @ ''b''), (''name'', TEXT_SEPARATOR # ''hi'' @ [TEXT_SEPARATOR])])"
proof -
  let ?row = "[(''circuit'', ''a,'' @ [NEWLINE] @ ''b''), (''name'', TEXT_SEPARATOR # ''hi'' @ [TEXT_SEPARATOR])]"
  have keys: "sorted_wrt (<) (map fst ?row)"
    by simp
  have cols: "take (length ?row) [''circuit'', ''name'', ''type''] = map fst ?row"
    by simp
  have vals: "list_all (\<lambda>v. trim v = v
         \<and> (NEWLINE \<notin> set v
             \<or> [NEWLINE] = [NEWLINE] \<and> (FIELD_SEPARATOR \<in> set v \<or> TEXT_SEPARATOR \<in> set v)))
       (map snd ?row)"
    by (simp add: trim_def is_space_def)
  have nb: "map snd ?row \<noteq> [[]]"
    by simp
  have nc: "take 1 (combineRow ?row) \<noteq> ''#''"
    by (simp add: combineRow_def quoteValue_def)
  show ?thesis
    by (intro conjI keys cols vals nb nc combineRow_roundtrip [OF keys cols vals nb nc])
qed

end
